theory Spec2Isabelle
  imports Complex_Main "HOL-Library.Word"
begin

section \<open>Data model of \<^verbatim>\<open>master_state.go\<close>\<close>

text \<open>
  A Go \<^verbatim>\<open>[]byte\<close> and a Go \<^verbatim>\<open>string\<close> are both sequences of bytes; a HOL
  \<open>char\<close> is one byte, so both are \<open>string\<close> here. A \<^verbatim>\<open>uint64\<close> is a
  \<open>64 word\<close>: \<open>+\<close>, \<open>-\<close> and \<open>*\<close> wrap around modulo \<open>2 ^ 64\<close>.

  A \<^verbatim>\<open>float64\<close> is a finite binary64 value, an infinity or a NaN. \<open>Finite x\<close>
  stands for the binary64 value that denotes the real \<open>x\<close> (the two zeros are not
  told apart). The values of a snapshot come from JSON numbers and are \<open>Finite\<close>;
  the task gauge passes them on as they are. The only arithmetic the program does
  on a \<^verbatim>\<open>float64\<close> is the multiplication by 1024, \<open>times_1024\<close> below. The
  conversion \<^verbatim>\<open>float64(size)\<close> of the three port gauges rounds, and those three
  extractors are not part of this development.
\<close>

type_synonym bytes = string
type_synonym uint64 = "64 word"
datatype float64 = Finite real | PosInf | NegInf | NaN

text \<open>\<^verbatim>\<open>type ranges [][2]uint64\<close>: each element is the pair (\<open>rng[0]\<close>, \<open>rng[1]\<close>).\<close>

type_synonym ranges = "(uint64 \<times> uint64) list"

record resources =
  CPUs :: float64
  Disk :: float64
  Mem :: float64
  Ports :: ranges

record label =
  Key :: string
  Value :: string

record status =
  State :: string
  Timestamp :: float64

record task =
  Name :: string
  ID :: string
  ExecutorID :: string
  FrameworkID :: string
  SlaveID :: string
  State :: string
  Labels :: "label list"
  Resources :: resources
  Statuses :: "status list"

record slave =
  PID :: string
  Used :: resources
  Unreserved :: resources
  Total :: resources

record framework =
  Active :: bool
  Tasks :: "task list"
  Completed :: "task list"

record state =
  Slaves :: "slave list"
  Frameworks :: "framework list"

text \<open>
  The errors the code can return or log: \<^verbatim>\<open>fmt.Errorf("bad range: %s", r)\<close>, the two
  kinds of \<^verbatim>\<open>*strconv.NumError\<close> of \<^verbatim>\<open>ParseUint\<close> (with the string that did not
  parse), and the errors of the HTTP client and of the JSON decoder, whose text is
  theirs.
\<close>

datatype error =
    BadRange bytes
  | ErrSyntax string
  | ErrRange string
  | TransportError string
  | JSONError string

section \<open>The Go standard library functions the codec calls\<close>

text \<open>
  \<^verbatim>\<open>bytes.Trim(s, cutset)\<close> for a cutset of ASCII bytes: every leading and every
  trailing byte that occurs in the cutset is cut off, however many there are.
\<close>

fun TrimLeft :: "bytes \<Rightarrow> string \<Rightarrow> bytes" where
  "TrimLeft [] cutset = []"
| "TrimLeft (c # s) cutset = (if c \<in> set cutset then TrimLeft s cutset else c # s)"

definition TrimRight :: "bytes \<Rightarrow> string \<Rightarrow> bytes" where
  "TrimRight s cutset = rev (TrimLeft (rev s) cutset)"

definition Trim :: "bytes \<Rightarrow> string \<Rightarrow> bytes" where
  "Trim s cutset = TrimRight (TrimLeft s cutset) cutset"

text \<open>
  \<^verbatim>\<open>bytes.Split(s, sep)\<close> for a separator of one byte: the pieces between the
  occurrences of the separator, one more piece than there are separators, so the
  empty input gives the one empty piece. The loop of the library looks for the next
  separator, cuts the piece before it and goes on behind it.
\<close>

function Split :: "bytes \<Rightarrow> char \<Rightarrow> bytes list" where
  "Split s sep =
     (case dropWhile (\<lambda>c. c \<noteq> sep) s of
        [] \<Rightarrow> [s]
      | _ # rest \<Rightarrow> takeWhile (\<lambda>c. c \<noteq> sep) s # Split rest sep)"
  by pat_completeness auto
termination
proof (relation "measure (\<lambda>(s, sep). length s)")
  show "wf (measure (\<lambda>(s, sep). length s))" by simp
next
  fix s :: bytes and sep x21 x22
  assume "dropWhile (\<lambda>c. c \<noteq> sep) s = x21 # x22"
  then have "length (dropWhile (\<lambda>c. c \<noteq> sep) s) = Suc (length x22)" by simp
  moreover have "length (dropWhile (\<lambda>c. c \<noteq> sep) s) \<le> length s"
    by (rule length_dropWhile_le)
  ultimately show "((x22, sep), (s, sep)) \<in> measure (\<lambda>(s, sep). length s)" by simp
qed

declare Split.simps [simp del]

text \<open>
  \<^verbatim>\<open>bytes.SplitN(s, sep, 2)\<close> for a separator of one byte: at most two pieces, cut
  at the first separator; the whole of \<open>s\<close> as the only piece when it has none.
\<close>

definition SplitN2 :: "bytes \<Rightarrow> char \<Rightarrow> bytes list" where
  "SplitN2 s sep =
     (case dropWhile (\<lambda>c. c \<noteq> sep) s of
        [] \<Rightarrow> [s]
      | _ # rest \<Rightarrow> [takeWhile (\<lambda>c. c \<noteq> sep) s, rest])"

text \<open>
  \<^verbatim>\<open>bytes.TrimSpace\<close> cuts off the leading and the trailing white space, as Unicode
  defines it, of a UTF-8 text: the six ASCII characters tab, line feed, vertical tab,
  form feed, carriage return and space, U+0085 and U+00A0 (two bytes each), and
  U+1680, U+2000 to U+200A, U+2028, U+2029, U+202F, U+205F and U+3000 (three bytes
  each). A byte that starts no such encoding ends the trimming on its side.
\<close>

definition asciiSpace :: "char \<Rightarrow> bool" where
  "asciiSpace c \<longleftrightarrow> c \<in> set [CHR 0x09, CHR 0x0A, CHR 0x0B, CHR 0x0C, CHR 0x0D, CHR 0x20]"

definition space2 :: "char \<Rightarrow> char \<Rightarrow> bool" where
  "space2 a b \<longleftrightarrow> a = CHR 0xC2 \<and> (b = CHR 0x85 \<or> b = CHR 0xA0)"

definition space3 :: "char \<Rightarrow> char \<Rightarrow> char \<Rightarrow> bool" where
  "space3 a b c \<longleftrightarrow>
     (a = CHR 0xE1 \<and> b = CHR 0x9A \<and> c = CHR 0x80) \<or>
     (a = CHR 0xE2 \<and> b = CHR 0x80 \<and>
        ((128::nat) \<le> of_char c \<and> (of_char c :: nat) \<le> 138 \<or>
         c = CHR 0xA8 \<or> c = CHR 0xA9 \<or> c = CHR 0xAF)) \<or>
     (a = CHR 0xE2 \<and> b = CHR 0x81 \<and> c = CHR 0x9F) \<or>
     (a = CHR 0xE3 \<and> b = CHR 0x80 \<and> c = CHR 0x80)"

fun trimLeftSpace :: "bytes \<Rightarrow> bytes" where
  "trimLeftSpace (a # b # c # s) =
     (if asciiSpace a then trimLeftSpace (b # c # s)
      else if space2 a b then trimLeftSpace (c # s)
      else if space3 a b c then trimLeftSpace s
      else a # b # c # s)"
| "trimLeftSpace [a, b] =
     (if asciiSpace a then trimLeftSpace [b]
      else if space2 a b then []
      else [a, b])"
| "trimLeftSpace [a] = (if asciiSpace a then [] else [a])"
| "trimLeftSpace [] = []"

text \<open>From the right the same encodings are looked for, read backwards.\<close>

fun trimRightSpace_rev :: "bytes \<Rightarrow> bytes" where
  "trimRightSpace_rev (c # b # a # s) =
     (if asciiSpace c then trimRightSpace_rev (b # a # s)
      else if space2 b c then trimRightSpace_rev (a # s)
      else if space3 a b c then trimRightSpace_rev s
      else c # b # a # s)"
| "trimRightSpace_rev [c, b] =
     (if asciiSpace c then trimRightSpace_rev [b]
      else if space2 b c then []
      else [c, b])"
| "trimRightSpace_rev [c] = (if asciiSpace c then [] else [c])"
| "trimRightSpace_rev [] = []"

definition TrimSpace :: "bytes \<Rightarrow> bytes" where
  "TrimSpace s = rev (trimRightSpace_rev (rev (trimLeftSpace s)))"

text \<open>
  \<^verbatim>\<open>strconv.ParseUint(s, 10, 64)\<close>. The empty string is a syntax error. Each byte
  is turned into a digit value (a decimal digit, or a letter counting from ten, which
  base ten then refuses); before a digit is added the library checks that the
  multiplication by ten cannot overflow (\<open>n \<ge> cutoff\<close>), and afterwards that the
  addition did not wrap around.
\<close>

definition digitOf :: "char \<Rightarrow> nat option" where
  "digitOf c =
     (let b = (of_char c :: nat) in
      if 48 \<le> b \<and> b \<le> 57 then Some (b - 48)
      else if 97 \<le> b \<and> b \<le> 122 then Some (b - 97 + 10)
      else if 65 \<le> b \<and> b \<le> 90 then Some (b - 65 + 10)
      else None)"

definition maxUint64 :: uint64 where
  "maxUint64 = 18446744073709551615"

definition cutoff :: uint64 where
  "cutoff = maxUint64 div 10 + 1"

fun ParseUint_loop :: "string \<Rightarrow> uint64 \<Rightarrow> string \<Rightarrow> error + uint64" where
  "ParseUint_loop s0 n [] = Inr n"
| "ParseUint_loop s0 n (c # s) =
     (case digitOf c of
        None \<Rightarrow> Inl (ErrSyntax s0)
      | Some d \<Rightarrow>
          if d \<ge> 10 then Inl (ErrSyntax s0)
          else if n \<ge> cutoff then Inl (ErrRange s0)
          else if n * 10 + of_nat d < n * 10 \<or> n * 10 + of_nat d > maxUint64
            then Inl (ErrRange s0)
          else ParseUint_loop s0 (n * 10 + of_nat d) s)"

definition ParseUint :: "string \<Rightarrow> error + uint64" where
  "ParseUint s = (if s = [] then Inl (ErrSyntax s) else ParseUint_loop s 0 s)"

section \<open>The RangeSet codec: \<^verbatim>\<open>ranges.UnmarshalJSON\<close> and \<^verbatim>\<open>ranges.size\<close>\<close>

text \<open>The cutset \<^verbatim>\<open>[]"\<close> of the call to \<^verbatim>\<open>bytes.Trim\<close>.\<close>

definition cutset :: string where
  "cutset = [CHR ''['', CHR '']'', CHR 0x22]"

text \<open>
  The loop over the tokens. The receiver \<^verbatim>\<open>*rs\<close> is passed in and returned with the
  error: \<^verbatim>\<open>append\<close> puts each decoded interval behind what the receiver holds, and a
  \<^verbatim>\<open>return\<close> with an error leaves it as it is at that moment.
\<close>

fun UnmarshalJSON_loop :: "ranges \<Rightarrow> bytes list \<Rightarrow> error option \<times> ranges" where
  "UnmarshalJSON_loop rs [] = (None, rs)"
| "UnmarshalJSON_loop rs (r # tokens) =
     (let ps = SplitN2 r (CHR ''-'') in
      if length ps \<noteq> 2 then (Some (BadRange r), rs)
      else
        case ParseUint (TrimSpace (ps ! 0)) of
          Inl err \<Rightarrow> (Some err, rs)
        | Inr rng0 \<Rightarrow>
            (case ParseUint (TrimSpace (ps ! 1)) of
               Inl err \<Rightarrow> (Some err, rs)
             | Inr rng1 \<Rightarrow> UnmarshalJSON_loop (rs @ [(rng0, rng1)]) tokens))"

definition UnmarshalJSON :: "ranges \<Rightarrow> bytes \<Rightarrow> error option \<times> ranges" where
  "UnmarshalJSON rs data =
     (let data' = Trim data cutset in
      if length data' = 0 then (None, rs)
      else UnmarshalJSON_loop rs (Split data' (CHR '','')))"

text \<open>\<^verbatim>\<open>ranges.size\<close>: the loop adds \<open>1 + (rs[i][1] - rs[i][0])\<close> to \<open>sz\<close>, in \<^verbatim>\<open>uint64\<close>.\<close>

fun size_loop :: "uint64 \<Rightarrow> ranges \<Rightarrow> uint64" where
  "size_loop sz [] = sz"
| "size_loop sz (r # rs) = size_loop (sz + (1 + (snd r - fst r))) rs"

definition size_ranges :: "ranges \<Rightarrow> uint64" where
  "size_ranges rs = size_loop 0 rs"

section \<open>Well-formed tokens, in the words of the specification\<close>

text \<open>
  A base-10 unsigned 64-bit integer is a non-empty string of the digits \<open>0\<close> to
  \<open>9\<close> whose value is below \<open>2 ^ 64\<close>. These definitions do not come from the
  code: the codec is compared with them.
\<close>

definition isDigit :: "char \<Rightarrow> bool" where
  "isDigit c \<longleftrightarrow> (48::nat) \<le> of_char c \<and> (of_char c :: nat) \<le> 57"

definition decimalValue :: "string \<Rightarrow> nat" where
  "decimalValue s = foldl (\<lambda>n c. n * 10 + (of_char c - 48)) 0 s"

definition uint64_numeral :: "string \<Rightarrow> bool" where
  "uint64_numeral s \<longleftrightarrow> s \<noteq> [] \<and> list_all isDigit s \<and> decimalValue s < 2 ^ 64"

text \<open>
  The encoding \<open>a-b,c-d,...\<close> of a list of pairs of numerals, and the intervals it
  stands for.
\<close>

fun encodeRanges :: "(string \<times> string) list \<Rightarrow> bytes" where
  "encodeRanges [] = []"
| "encodeRanges [(a, b)] = a @ ''-'' @ b"
| "encodeRanges ((a, b) # t # ts) = a @ ''-'' @ b @ '','' @ encodeRanges (t # ts)"

definition numeralRange :: "string \<times> string \<Rightarrow> uint64 \<times> uint64" where
  "numeralRange p = (of_nat (decimalValue (fst p)), of_nat (decimalValue (snd p)))"

text \<open>
  A token is malformed when it has no \<open>-\<close>, or when what stands before its first
  \<open>-\<close> or what stands behind it is, white space trimmed, not such a numeral. A token
  that is not malformed stands for the interval \<open>tokenRange\<close>.
\<close>

definition beforeDash :: "bytes \<Rightarrow> bytes" where
  "beforeDash r = takeWhile (\<lambda>c. c \<noteq> CHR ''-'') r"

definition afterDash :: "bytes \<Rightarrow> bytes" where
  "afterDash r = tl (dropWhile (\<lambda>c. c \<noteq> CHR ''-'') r)"

definition malformed :: "bytes \<Rightarrow> bool" where
  "malformed r \<longleftrightarrow>
     \<not> (CHR ''-'' \<in> set r \<and> uint64_numeral (TrimSpace (beforeDash r)) \<and>
        uint64_numeral (TrimSpace (afterDash r)))"

definition tokenRange :: "bytes \<Rightarrow> uint64 \<times> uint64" where
  "tokenRange r =
     (of_nat (decimalValue (TrimSpace (beforeDash r))),
      of_nat (decimalValue (TrimSpace (afterDash r))))"

section \<open>The \<^verbatim>\<open>float64\<close> product \<^verbatim>\<open>x * 1024\<close>\<close>

text \<open>
  \<^verbatim>\<open>math.MaxFloat64\<close> is \<open>(2 ^ 53 - 1) * 2 ^ 971\<close>. As \<open>1024 = 2 ^ 10\<close>, the
  product of a finite binary64 value and 1024 only raises the exponent: while it is
  within \<open>MaxFloat64\<close> it is a binary64 value again and nothing is rounded, and
  beyond \<open>MaxFloat64\<close> the product overflows to the infinity of its sign. An
  infinity times 1024 is that infinity, a NaN stays a NaN.
\<close>

definition MaxFloat64 :: real where
  "MaxFloat64 = (2 ^ 53 - 1) * 2 ^ 971"

fun times_1024 :: "float64 \<Rightarrow> float64" where
  "times_1024 (Finite x) =
     (if \<bar>x * 1024\<bar> \<le> MaxFloat64 then Finite (x * 1024)
      else if 0 < x then PosInf else NegInf)"
| "times_1024 PosInf = PosInf"
| "times_1024 NegInf = NegInf"
| "times_1024 NaN = NaN"

section \<open>Labelled gauges\<close>

text \<open>
  A \<^verbatim>\<open>*prometheus.GaugeVec\<close> holds one gauge for each vector of label values that has
  been used on it. The code only ever calls \<^verbatim>\<open>WithLabelValues(lvs...).Set(v)\<close> on
  it, so its state is the sequence of these calls, oldest first: each call emits one
  observation, and the value a gauge exposes is that of the last call with its label
  values. (\<^verbatim>\<open>WithLabelValues\<close> panics when the number of values differs from the
  number of label names of the descriptor; every extractor below passes as many as
  its descriptor declares.)
\<close>

type_synonym observation = "string list \<times> float64"
type_synonym gaugeVec = "observation list"

definition WithLabelValues_Set :: "gaugeVec \<Rightarrow> string list \<Rightarrow> float64 \<Rightarrow> gaugeVec" where
  "WithLabelValues_Set c lvs v = c @ [(lvs, v)]"

definition gauge_value :: "gaugeVec \<Rightarrow> string list \<Rightarrow> float64 option" where
  "gauge_value c lvs = map_of (rev c) lvs"

section \<open>The extractors of \<^verbatim>\<open>newMasterStateCollector\<close>\<close>

text \<open>
  Each node gauge is set by a closure of the shape
  \<^verbatim>\<open>for _, s := range st.Slaves { c.WithLabelValues(s.PID).Set(e) }\<close>, where only
  the expression \<open>e\<close> differs.
\<close>

fun slaves_loop :: "(slave \<Rightarrow> float64) \<Rightarrow> slave list \<Rightarrow> gaugeVec \<Rightarrow> gaugeVec" where
  "slaves_loop e [] c = c"
| "slaves_loop e (s # ss) c = slaves_loop e ss (WithLabelValues_Set c [PID s] (e s))"

definition mem_bytes :: "state \<Rightarrow> gaugeVec \<Rightarrow> gaugeVec" where
  "mem_bytes st c = slaves_loop (\<lambda>s. times_1024 (Mem (Total s))) (Slaves st) c"

definition mem_used_bytes :: "state \<Rightarrow> gaugeVec \<Rightarrow> gaugeVec" where
  "mem_used_bytes st c = slaves_loop (\<lambda>s. times_1024 (Mem (Used s))) (Slaves st) c"

definition mem_unreserved_bytes :: "state \<Rightarrow> gaugeVec \<Rightarrow> gaugeVec" where
  "mem_unreserved_bytes st c = slaves_loop (\<lambda>s. times_1024 (Mem (Unreserved s))) (Slaves st) c"

definition disk_bytes :: "state \<Rightarrow> gaugeVec \<Rightarrow> gaugeVec" where
  "disk_bytes st c = slaves_loop (\<lambda>s. times_1024 (Disk (Total s))) (Slaves st) c"

definition disk_used_bytes :: "state \<Rightarrow> gaugeVec \<Rightarrow> gaugeVec" where
  "disk_used_bytes st c = slaves_loop (\<lambda>s. times_1024 (Disk (Used s))) (Slaves st) c"

definition disk_unreserved_bytes :: "state \<Rightarrow> gaugeVec \<Rightarrow> gaugeVec" where
  "disk_unreserved_bytes st c = slaves_loop (\<lambda>s. times_1024 (Disk (Unreserved s))) (Slaves st) c"

text \<open>
  The closure of \<^verbatim>\<open>task_state_time\<close>: the loop over the completed tasks of one
  framework, inside the loop over the frameworks.
\<close>

fun completed_loop :: "task list \<Rightarrow> gaugeVec \<Rightarrow> gaugeVec" where
  "completed_loop [] c = c"
| "completed_loop (task # tasks) c =
     (let values = [ID task, SlaveID task, ExecutorID task, Name task,
                    FrameworkID task, task.State task] in
      if length (Statuses task) > 0
      then completed_loop tasks
             (WithLabelValues_Set c values (Timestamp (Statuses task ! 0)))
      else completed_loop tasks c)"

fun frameworks_loop :: "framework list \<Rightarrow> gaugeVec \<Rightarrow> gaugeVec" where
  "frameworks_loop [] c = c"
| "frameworks_loop (f # fs) c =
     (if \<not> Active f then frameworks_loop fs c
      else frameworks_loop fs (completed_loop (Completed f) c))"

definition task_state_time :: "state \<Rightarrow> gaugeVec \<Rightarrow> gaugeVec" where
  "task_state_time st c = frameworks_loop (Frameworks st) c"

section \<open>\<^verbatim>\<open>masterCollector.Collect\<close>\<close>

text \<open>
  The collector owns its gauges, each with the closure that sets it. Go ranges over
  the map \<^verbatim>\<open>c.metrics\<close> in no fixed order; here the table is a list, in whatever
  order the cycle visits it. The HTTP client and the JSON decoder are the two
  parameters \<open>get\<close> and \<open>decode\<close>: a request that fails or times out is an \<open>Inl\<close>
  of \<open>get\<close>, a body that does not decode an \<open>Inl\<close> of \<open>decode\<close>. A cycle returns
  the collector, the lines it logged and the gauges it sent on the channel. In
  \<open>metrics_loop\<close> the closure that Go calls \<^verbatim>\<open>set\<close> is \<open>set_fn\<close>.
\<close>

type_synonym extractor = "state \<Rightarrow> gaugeVec \<Rightarrow> gaugeVec"

record masterCollector =
  url :: string
  metrics :: "(gaugeVec \<times> extractor) list"

datatype log_entry = ErrorFetching string error | ErrorDecoding error

definition TrimSuffix :: "string \<Rightarrow> string \<Rightarrow> string" where
  "TrimSuffix s suffix =
     (if length suffix \<le> length s \<and> drop (length s - length suffix) s = suffix
      then take (length s - length suffix) s else s)"

fun metrics_loop :: "state \<Rightarrow> (gaugeVec \<times> extractor) list \<Rightarrow>
    (gaugeVec \<times> extractor) list \<times> gaugeVec list" where
  "metrics_loop s [] = ([], [])"
| "metrics_loop s ((c, set_fn) # ms) =
     (let c' = set_fn s c; (ms', sent) = metrics_loop s ms
      in ((c', set_fn) # ms', c' # sent))"

definition Collect :: "(string \<Rightarrow> error + bytes) \<Rightarrow> (bytes \<Rightarrow> error + state) \<Rightarrow>
    masterCollector \<Rightarrow> masterCollector \<times> log_entry list \<times> gaugeVec list" where
  "Collect get decode c =
     (let u = TrimSuffix (url c) ''/'' @ ''/state'' in
      case get u of
        Inl err \<Rightarrow> (c, [ErrorFetching u err], [])
      | Inr body \<Rightarrow>
          (case decode body of
             Inl err \<Rightarrow> (c, [ErrorDecoding err], [])
           | Inr s \<Rightarrow>
               (let (ms, sent) = metrics_loop s (metrics c)
                in (c\<lparr>metrics := ms\<rparr>, [], sent))))"

section \<open>Evaluating the codec on a given input\<close>

text \<open>\<open>Split\<close> byte by byte, for the simplifier to run it on a literal.\<close>

lemma Split_Nil: "Split [] sep = [[]]"
  by (subst Split.simps) simp

lemma Split_Cons:
  "Split (c # s) sep =
     (if c = sep then [] # Split s sep
      else (case Split s sep of [] \<Rightarrow> [] | p # ps \<Rightarrow> (c # p) # ps))"
proof (cases "c = sep")
  case True
  then show ?thesis by (subst Split.simps) simp
next
  case False
  have d: "dropWhile (\<lambda>c. c \<noteq> sep) (c # s) = dropWhile (\<lambda>c. c \<noteq> sep) s"
    and t: "takeWhile (\<lambda>c. c \<noteq> sep) (c # s) = c # takeWhile (\<lambda>c. c \<noteq> sep) s"
    using False by simp_all
  have A: "Split (c # s) sep =
      (case dropWhile (\<lambda>c. c \<noteq> sep) s of
         [] \<Rightarrow> [c # s]
       | _ # rest \<Rightarrow> (c # takeWhile (\<lambda>c. c \<noteq> sep) s) # Split rest sep)"
    by (subst Split.simps) (simp only: d t)
  have B: "Split s sep =
      (case dropWhile (\<lambda>c. c \<noteq> sep) s of
         [] \<Rightarrow> [s]
       | _ # rest \<Rightarrow> takeWhile (\<lambda>c. c \<noteq> sep) s # Split rest sep)"
    by (rule Split.simps)
  show ?thesis
  proof (cases "dropWhile (\<lambda>c. c \<noteq> sep) s")
    case Nil
    show ?thesis unfolding A B Nil using False by simp
  next
    case (Cons x rest)
    show ?thesis unfolding A B Cons using False by simp
  qed
qed

lemmas codec_eval =
  UnmarshalJSON_def Trim_def TrimRight_def cutset_def Split_Nil Split_Cons SplitN2_def
  ParseUint_def TrimSpace_def asciiSpace_def space2_def space3_def digitOf_def cutoff_def
  maxUint64_def word_le_nat_alt word_less_nat_alt

lemmas token_eval =
  malformed_def beforeDash_def afterDash_def uint64_numeral_def isDigit_def
  decimalValue_def tokenRange_def

section \<open>The size of a RangeSet\<close>

lemma size_loop_sum:
  "size_loop sz rs = sz + sum_list (map (\<lambda>r. 1 + (snd r - fst r)) rs)"
  by (induction rs arbitrary: sz) (simp_all add: add.assoc)

lemma word_sum_list_of_int:
  "(sum_list (map (\<lambda>r. 1 + (snd r - fst r)) rs) :: uint64) =
   word_of_int (\<Sum>r\<leftarrow>rs. 1 + (uint (snd r) - uint (fst r)))"
  by (induction rs) simp_all

lemma size_ranges_word_sum:
  "size_ranges rs = sum_list (map (\<lambda>r. 1 + (snd r - fst r)) rs)"
  by (simp add: size_ranges_def size_loop_sum)

lemma size_ranges_uint:
  "uint (size_ranges rs) = (\<Sum>r\<leftarrow>rs. 1 + (uint (snd r) - uint (fst r))) mod 2 ^ 64"
  unfolding size_ranges_word_sum word_sum_list_of_int
  by (simp add: uint_word_of_int take_bit_eq_mod)

text \<open>
  Claim C7. \<^verbatim>\<open>size()\<close> is the sum of \<open>1 + hi - lo\<close> over the intervals in unsigned
  64-bit arithmetic: read as an integer it is that sum modulo \<open>2 ^ 64\<close>, whatever the
  bounds are. An interval with \<open>hi < lo\<close> raises nothing and wraps around: the one
  interval \<open>[5, 3]\<close> has size \<open>2 ^ 64 - 1\<close>.
\<close>

theorem size_modular:
  "size_ranges rs = sum_list (map (\<lambda>(lo, hi). 1 + (hi - lo)) rs) \<and>
   uint (size_ranges rs) = (\<Sum>(lo, hi)\<leftarrow>rs. 1 + (uint hi - uint lo)) mod 2 ^ 64 \<and>
   size_ranges [(5, 3)] = 18446744073709551615"
proof -
  have c: "size_ranges [(5, 3)] = 18446744073709551615"
    by (simp add: size_ranges_def)
  show ?thesis using size_ranges_word_sum [of rs] size_ranges_uint [of rs] c
    by (simp add: case_prod_unfold)
qed

section \<open>What \<^verbatim>\<open>bytes.Trim\<close> leaves of the input\<close>

text \<open>
  Claim C5. Decoding the empty input, \<^verbatim>\<open>[]\<close> or \<^verbatim>\<open>[""]\<close> returns no error and
  does not touch the receiver; decoded into a fresh RangeSet each gives the empty
  RangeSet, of size 0.
\<close>

theorem empty_encodings:
  "UnmarshalJSON rs [] = (None, rs) \<and>
   UnmarshalJSON rs ''[]'' = (None, rs) \<and>
   UnmarshalJSON rs [CHR ''['', CHR 0x22, CHR 0x22, CHR '']''] = (None, rs) \<and>
   size_ranges (snd (UnmarshalJSON [] [])) = 0 \<and>
   size_ranges (snd (UnmarshalJSON [] ''[]'')) = 0 \<and>
   size_ranges (snd (UnmarshalJSON [] [CHR ''['', CHR 0x22, CHR 0x22, CHR '']''])) = 0"
  by (simp add: UnmarshalJSON_def Trim_def TrimRight_def cutset_def size_ranges_def)

lemma TrimLeft_prefix: "set pre \<subseteq> set cs \<Longrightarrow> TrimLeft (pre @ s) cs = TrimLeft s cs"
  by (induction pre) simp_all

lemma TrimLeft_all: "set s \<subseteq> set cs \<Longrightarrow> TrimLeft s cs = []"
  by (induction s) simp_all

lemma TrimLeft_append:
  "\<not> set s \<subseteq> set cs \<Longrightarrow> TrimLeft (s @ t) cs = TrimLeft s cs @ t"
  by (induction s) auto

lemma Trim_wrapped:
  assumes "set pre \<subseteq> set cs" and "set post \<subseteq> set cs"
  shows "Trim (pre @ s @ post) cs = Trim s cs"
proof (cases "set s \<subseteq> set cs")
  case True
  then have "set (s @ post) \<subseteq> set cs" using assms by simp
  then show ?thesis using True assms
    by (simp add: Trim_def TrimLeft_prefix TrimLeft_all)
next
  case False
  have "TrimLeft (pre @ s @ post) cs = TrimLeft s cs @ post"
    using assms False by (simp add: TrimLeft_prefix TrimLeft_append)
  moreover have "TrimRight (x @ post) cs = TrimRight x cs" for x
    using assms(2) by (simp add: TrimRight_def TrimLeft_prefix)
  ultimately show ?thesis by (simp add: Trim_def)
qed

lemma Trim_id:
  assumes "s \<noteq> []" and "hd s \<notin> set cs" and "last s \<notin> set cs"
  shows "Trim s cs = s"
proof -
  from assms(1,2) have l: "TrimLeft s cs = s" by (cases s) simp_all
  from assms(1,3) have "TrimLeft (rev s) cs = rev s"
    by (cases "rev s") (simp_all add: last_rev [symmetric] del: last_rev)
  then show ?thesis by (simp add: Trim_def TrimRight_def l)
qed

text \<open>
  Claim C6, as the code has it. \<^verbatim>\<open>bytes.Trim\<close> does not stop after one layer: it
  cuts off every leading and every trailing \<open>[\<close>, \<open>]\<close> and \<open>"\<close>, in any number
  and order, so an input wrapped in any such bytes decodes as the input without
  them.
\<close>

theorem Trim_strips_every_layer:
  assumes "set pre \<subseteq> set cutset" and "set post \<subseteq> set cutset"
  shows "Trim (pre @ data @ post) cutset = Trim data cutset \<and>
         UnmarshalJSON rs (pre @ data @ post) = UnmarshalJSON rs data"
  using Trim_wrapped [OF assms] by (simp add: UnmarshalJSON_def)

theorem Trim_strips_every_layer_witness:
  "Trim (''[['' @ ''1-2'' @ '']]'') cutset = Trim ''1-2'' cutset \<and>
   UnmarshalJSON [] (''[['' @ ''1-2'' @ '']]'') = UnmarshalJSON [] ''1-2'' \<and>
   UnmarshalJSON [] ''1-2'' = (None, [(1, 2)])"
proof -
  have a: "set ''[['' \<subseteq> set cutset" by (simp add: cutset_def)
  have b: "set '']]'' \<subseteq> set cutset" by (simp add: cutset_def)
  have c: "UnmarshalJSON [] ''1-2'' = (None, [(1, 2)])" by (simp add: codec_eval)
  show ?thesis using Trim_strips_every_layer [OF a b, of "''1-2''" "[]"] c by simp
qed

text \<open>
  Claim C6, as the specification states it, fails on the doubly wrapped input
  \<^verbatim>\<open>[[1-2]]\<close>: both layers go, what is left is the bare token list \<^verbatim>\<open>1-2\<close>, and
  the decode succeeds with the interval \<open>[1, 2]\<close>. (With one layer stripped the
  token \<^verbatim>\<open>[1-2]\<close> would be refused.)
\<close>

theorem double_wrap_counterexample:
  "Trim ''[[1-2]]'' cutset = ''1-2'' \<and>
   UnmarshalJSON [] ''[[1-2]]'' = (None, [(1, 2)])"
  by (simp add: codec_eval)

section \<open>\<^verbatim>\<open>ParseUint\<close> accepts the numerals below \<open>2 ^ 64\<close> and nothing else\<close>

lemma isDigit_digitOf:
  "isDigit c \<Longrightarrow> digitOf c = Some (of_char c - 48) \<and> (of_char c - 48 :: nat) < 10"
  by (auto simp: isDigit_def digitOf_def Let_def)

lemma not_isDigit_digitOf:
  "\<not> isDigit c \<Longrightarrow> digitOf c = None \<or> (\<exists>d. digitOf c = Some d \<and> 10 \<le> d)"
  by (auto simp: isDigit_def digitOf_def Let_def)

lemma ParseUint_loop_nondigit:
  "\<not> isDigit c \<Longrightarrow> ParseUint_loop s0 n (c # cs) = Inl (ErrSyntax s0)"
  using not_isDigit_digitOf [of c] by auto

lemma unat_cutoff: "unat cutoff = 1844674407370955162"
  by (simp add: cutoff_def maxUint64_def)

lemma unat_maxUint64: "unat maxUint64 = 18446744073709551615"
  by (simp add: maxUint64_def)

lemma unat_times_ten:
  fixes n :: uint64
  assumes "unat n * 10 < 2 ^ 64"
  shows "unat (n * 10) = unat n * 10"
  using assms by (simp add: unat_word_ariths)

lemma unat_digit: "d < 10 \<Longrightarrow> unat (of_nat d :: uint64) = d"
  by (simp add: unat_of_nat)

text \<open>A digit that fits is added, and the loop goes on.\<close>

lemma ParseUint_loop_step:
  assumes "isDigit c" and "unat n * 10 + (of_char c - 48) < 2 ^ 64"
  shows "ParseUint_loop s0 n (c # cs) =
           ParseUint_loop s0 (n * 10 + of_nat (of_char c - 48)) cs"
    and "unat (n * 10 + of_nat (of_char c - 48)) = unat n * 10 + (of_char c - 48)"
proof -
  let ?d = "of_char c - 48 :: nat"
  have d: "digitOf c = Some ?d" "?d < 10" using isDigit_digitOf [OF assms(1)] by simp_all
  have m: "unat (n * 10) = unat n * 10"
    using assms(2) by (intro unat_times_ten) simp
  have a: "unat (n * 10 + of_nat ?d) = unat n * 10 + ?d"
    using assms(2) d(2) by (simp add: unat_word_ariths(1) m unat_digit)
  have c: "\<not> cutoff \<le> n"
    using assms(2) by (simp add: word_le_nat_alt unat_cutoff)
  have w: "\<not> n * 10 + of_nat ?d < n * 10"
    by (simp add: word_less_nat_alt a m)
  have x: "\<not> maxUint64 < n * 10 + of_nat ?d"
    using assms(2) by (simp add: word_less_nat_alt a unat_maxUint64)
  show "ParseUint_loop s0 n (c # cs) = ParseUint_loop s0 (n * 10 + of_nat ?d) cs"
    using d c w x by simp
  show "unat (n * 10 + of_nat ?d) = unat n * 10 + ?d" by (rule a)
qed

text \<open>A digit that does not fit is caught by one of the two range checks.\<close>

lemma ParseUint_loop_overflow:
  assumes "isDigit c" and "\<not> unat n * 10 + (of_char c - 48) < 2 ^ 64"
  shows "ParseUint_loop s0 n (c # cs) = Inl (ErrRange s0)"
proof (cases "cutoff \<le> n")
  case True
  then show ?thesis using isDigit_digitOf [OF assms(1)] by simp
next
  case False
  let ?d = "of_char c - 48 :: nat"
  have d: "digitOf c = Some ?d" "?d < 10" using isDigit_digitOf [OF assms(1)] by simp_all
  from False have lt: "unat n < 1844674407370955162"
    by (simp add: word_le_nat_alt unat_cutoff)
  then have m: "unat (n * 10) = unat n * 10"
    by (intro unat_times_ten) simp
  have "unat (n * 10 + of_nat ?d) = (unat n * 10 + ?d) mod 2 ^ 64"
    using d(2) by (simp add: unat_word_ariths(1) m unat_digit)
  also have "\<dots> = unat n * 10 + ?d - 2 ^ 64"
    using assms(2) lt d(2) by (simp add: mod_if)
  finally have "unat (n * 10 + of_nat ?d) < unat (n * 10)"
    using assms(2) d(2) m by simp
  then have "n * 10 + of_nat ?d < n * 10" by (simp add: word_less_nat_alt)
  then show ?thesis using d False by simp
qed

lemma foldl_digits_ge:
  "a \<le> foldl (\<lambda>n c. n * 10 + (of_char c - 48)) (a::nat) cs"
proof (induction cs arbitrary: a)
  case Nil
  show ?case by simp
next
  case (Cons c cs)
  have "a \<le> a * 10 + (of_char c - 48)" by simp
  also have "\<dots> \<le> foldl (\<lambda>n c. n * 10 + (of_char c - 48)) (a * 10 + (of_char c - 48)) cs"
    by (rule Cons.IH)
  finally show ?case by simp
qed

lemma ParseUint_loop_Inr:
  assumes "list_all isDigit cs"
    and "foldl (\<lambda>n c. n * 10 + (of_char c - 48)) (unat n) cs < 2 ^ 64"
  shows "ParseUint_loop s0 n cs =
           Inr (of_nat (foldl (\<lambda>n c. n * 10 + (of_char c - 48)) (unat n) cs))"
  using assms
proof (induction cs arbitrary: n)
  case Nil
  show ?case by simp
next
  case (Cons c cs)
  let ?a = "unat n * 10 + (of_char c - 48)"
  have "?a \<le> foldl (\<lambda>n c. n * 10 + (of_char c - 48)) ?a cs" by (rule foldl_digits_ge)
  with Cons.prems(2) have lt: "?a < 2 ^ 64" by simp
  from Cons.prems(1) have dc: "isDigit c" and dcs: "list_all isDigit cs" by simp_all
  note st = ParseUint_loop_step [OF dc lt]
  show ?case using Cons.IH [OF dcs, of "n * 10 + of_nat (of_char c - 48)"] Cons.prems(2)
    by (simp only: st foldl_Cons)
qed

lemma ParseUint_loop_Inl:
  assumes "\<not> (list_all isDigit cs \<and>
     foldl (\<lambda>n c. n * 10 + (of_char c - 48)) (unat n) cs < 2 ^ 64)"
  shows "isl (ParseUint_loop s0 n cs)"
  using assms
proof (induction cs arbitrary: n)
  case Nil
  then show ?case using unsigned_less [of n, where ?'a = nat] by simp
next
  case (Cons c cs)
  show ?case
  proof (cases "isDigit c")
    case False
    show ?thesis by (simp only: ParseUint_loop_nondigit [OF False] sum.disc)
  next
    case True
    show ?thesis
    proof (cases "unat n * 10 + (of_char c - 48) < 2 ^ 64")
      case False
      show ?thesis by (simp only: ParseUint_loop_overflow [OF True False] sum.disc)
    next
      case lt: True
      note st = ParseUint_loop_step [OF True lt]
      have "\<not> (list_all isDigit cs \<and>
        foldl (\<lambda>n c. n * 10 + (of_char c - 48))
          (unat (n * 10 + of_nat (of_char c - 48))) cs < 2 ^ 64)"
        using Cons.prems True by (simp add: st(2))
      from Cons.IH [OF this] show ?thesis by (simp only: st(1))
    qed
  qed
qed

lemma ParseUint_numeral:
  "uint64_numeral s \<Longrightarrow> ParseUint s = Inr (of_nat (decimalValue s))"
  using ParseUint_loop_Inr [of s 0 s]
  by (simp add: uint64_numeral_def ParseUint_def decimalValue_def)

lemma ParseUint_not_numeral:
  "\<not> uint64_numeral s \<Longrightarrow> isl (ParseUint s)"
  using ParseUint_loop_Inl [of s 0 s]
  by (auto simp add: uint64_numeral_def ParseUint_def decimalValue_def)

section \<open>Digits are neither white space nor separators\<close>

lemma isDigit_not_space:
  assumes "isDigit c"
  shows "\<not> asciiSpace c" and "\<not> space2 c b" and "\<not> space2 b c"
    and "\<not> space3 c a b" and "\<not> space3 a b c"
  using assms by (auto simp: isDigit_def asciiSpace_def space2_def space3_def)

lemma trimLeftSpace_digit: "isDigit c \<Longrightarrow> trimLeftSpace (c # s) = c # s"
proof -
  assume d: "isDigit c"
  show ?thesis
  proof (cases s)
    case Nil
    then show ?thesis using isDigit_not_space(1) [OF d] by simp
  next
    case (Cons b s1)
    show ?thesis
    proof (cases s1)
      case Nil
      then show ?thesis using Cons isDigit_not_space(1,2) [OF d] by simp
    next
      case (Cons a s2)
      then show ?thesis using \<open>s = b # s1\<close> isDigit_not_space(1,2,4) [OF d] by simp
    qed
  qed
qed

lemma trimRightSpace_rev_digit: "isDigit c \<Longrightarrow> trimRightSpace_rev (c # s) = c # s"
proof -
  assume d: "isDigit c"
  show ?thesis
  proof (cases s)
    case Nil
    then show ?thesis using isDigit_not_space(1) [OF d] by simp
  next
    case (Cons b s1)
    show ?thesis
    proof (cases s1)
      case Nil
      then show ?thesis using Cons isDigit_not_space(1,3) [OF d] by simp
    next
      case (Cons a s2)
      then show ?thesis using \<open>s = b # s1\<close> isDigit_not_space(1,3,5) [OF d] by simp
    qed
  qed
qed

lemma TrimSpace_digits:
  assumes "list_all isDigit s"
  shows "TrimSpace s = s"
proof (cases s)
  case Nil
  then show ?thesis by (simp add: TrimSpace_def)
next
  case (Cons c s1)
  with assms have l: "trimLeftSpace s = s" by (simp add: trimLeftSpace_digit)
  have "rev s \<noteq> []" using Cons by simp
  then obtain d r where r: "rev s = d # r" by (cases "rev s") auto
  then have "d \<in> set s" by (metis list.set_intros(1) set_rev)
  with assms have "isDigit d" by (simp add: list_all_iff)
  then have "trimRightSpace_rev (rev s) = rev s"
    unfolding r by (rule trimRightSpace_rev_digit)
  then show ?thesis by (simp add: TrimSpace_def l)
qed

lemma isDigit_not_sep:
  assumes "isDigit c"
  shows "c \<noteq> CHR '',''" and "c \<noteq> CHR ''-''" and "c \<notin> set cutset"
  using assms by (auto simp: isDigit_def cutset_def)

lemma digits_no_sep:
  assumes "list_all isDigit s"
  shows "CHR '','' \<notin> set s" and "CHR ''-'' \<notin> set s"
  using assms isDigit_not_sep(1,2) by (auto simp: list_all_iff)

section \<open>The loop over the tokens\<close>

lemma SplitN2_dash:
  "CHR ''-'' \<in> set r \<Longrightarrow> SplitN2 r (CHR ''-'') = [beforeDash r, afterDash r]"
  by (cases "dropWhile (\<lambda>c. c \<noteq> CHR ''-'') r")
     (auto simp: SplitN2_def beforeDash_def afterDash_def dropWhile_eq_Nil_conv)

lemma SplitN2_no_dash:
  "CHR ''-'' \<notin> set r \<Longrightarrow> SplitN2 r (CHR ''-'') = [r]"
proof -
  assume "CHR ''-'' \<notin> set r"
  then have dw: "dropWhile (\<lambda>c. c \<noteq> CHR ''-'') r = []"
    by (auto simp: dropWhile_eq_Nil_conv)
  show ?thesis unfolding SplitN2_def dw by simp
qed

text \<open>A token that is not malformed is appended, and the loop goes on.\<close>

lemma loop_wellformed:
  assumes "\<not> malformed r"
  shows "UnmarshalJSON_loop rs (r # ts) = UnmarshalJSON_loop (rs @ [tokenRange r]) ts"
proof -
  from assms have d: "CHR ''-'' \<in> set r"
    and a: "uint64_numeral (TrimSpace (beforeDash r))"
    and b: "uint64_numeral (TrimSpace (afterDash r))"
    by (simp_all add: malformed_def)
  show ?thesis
    by (simp add: SplitN2_dash [OF d] ParseUint_numeral [OF a] ParseUint_numeral [OF b]
        tokenRange_def)
qed

text \<open>A malformed token ends the loop with an error, the receiver as it is.\<close>

lemma loop_malformed:
  assumes "malformed r"
  shows "\<exists>e. UnmarshalJSON_loop rs (r # ts) = (Some e, rs)"
proof (cases "CHR ''-'' \<in> set r")
  case False
  then show ?thesis by (simp add: SplitN2_no_dash)
next
  case True
  note sp = SplitN2_dash [OF True]
  show ?thesis
  proof (cases "uint64_numeral (TrimSpace (beforeDash r))")
    case False
    from ParseUint_not_numeral [OF this] obtain e
      where "ParseUint (TrimSpace (beforeDash r)) = Inl e" by (auto simp: isl_def)
    then show ?thesis by (simp add: sp)
  next
    case a: True
    with assms True have "\<not> uint64_numeral (TrimSpace (afterDash r))"
      by (simp add: malformed_def)
    from ParseUint_not_numeral [OF this] obtain e
      where "ParseUint (TrimSpace (afterDash r)) = Inl e" by (auto simp: isl_def)
    then show ?thesis by (simp add: sp ParseUint_numeral [OF a])
  qed
qed

lemma loop_wellformed_prefix:
  "list_all (\<lambda>t. \<not> malformed t) good \<Longrightarrow>
   UnmarshalJSON_loop rs (good @ ts) = UnmarshalJSON_loop (rs @ map tokenRange good) ts"
proof (induction good arbitrary: rs)
  case Nil
  show ?case by simp
next
  case (Cons t good)
  then have t: "\<not> malformed t" and g: "list_all (\<lambda>t. \<not> malformed t) good" by simp_all
  have "UnmarshalJSON_loop rs ((t # good) @ ts) =
        UnmarshalJSON_loop (rs @ [tokenRange t]) (good @ ts)"
    by (simp only: append_Cons loop_wellformed [OF t])
  also have "\<dots> = UnmarshalJSON_loop ((rs @ [tokenRange t]) @ map tokenRange good) ts"
    by (rule Cons.IH [OF g])
  finally show ?case by (simp only: list.map append_assoc append_Cons append_Nil)
qed

text \<open>
  Claim C10. Let the tokens of a non-empty input begin with tokens \<open>good\<close> that are
  not malformed. If there is no token behind them, the decode returns no error and
  the receiver is what it held before followed by their intervals: it is appended
  to, not replaced. If the next token is malformed, the decode returns an error and
  the receiver still holds, behind what it held before, the intervals of \<open>good\<close>.
\<close>

theorem decode_not_atomic:
  assumes "Trim data cutset \<noteq> []"
    and "Split (Trim data cutset) (CHR '','') = good @ rest"
    and "list_all (\<lambda>t. \<not> malformed t) good"
  shows "(rest = [] \<longrightarrow> UnmarshalJSON rs data = (None, rs @ map tokenRange good)) \<and>
    (rest \<noteq> [] \<and> malformed (hd rest) \<longrightarrow>
       (\<exists>e. UnmarshalJSON rs data = (Some e, rs @ map tokenRange good)))"
proof -
  have u: "UnmarshalJSON rs data = UnmarshalJSON_loop (rs @ map tokenRange good) rest"
    using assms(1) by (simp add: UnmarshalJSON_def assms(2) loop_wellformed_prefix [OF assms(3)])
  have a: "rest = [] \<longrightarrow> UnmarshalJSON rs data = (None, rs @ map tokenRange good)"
    unfolding u by simp
  have b: "\<exists>e. UnmarshalJSON rs data = (Some e, rs @ map tokenRange good)"
    if "rest \<noteq> []" and m: "malformed (hd rest)"
  proof -
    from that obtain bad more where r: "rest = bad # more" and "malformed bad"
      by (cases rest) auto
    from loop_malformed [OF this(2)] show ?thesis unfolding u r by blast
  qed
  show ?thesis using a b by blast
qed

text \<open>
  Into a receiver that holds \<open>[7, 8]\<close>: two good tokens and then a malformed one
  leave three intervals and an error; the two good tokens alone leave the same three
  intervals and no error.
\<close>

theorem decode_not_atomic_witness:
  "UnmarshalJSON [(7, 8)] ''1-2,3-4,x-5,6-7'' =
     (Some (ErrSyntax ''x''), [(7, 8), (1, 2), (3, 4)]) \<and>
   UnmarshalJSON [(7, 8)] ''1-2,3-4'' = (None, [(7, 8), (1, 2), (3, 4)])"
proof -
  have t: "Trim ''1-2,3-4,x-5,6-7'' cutset \<noteq> []" by (simp add: codec_eval)
  have s: "Split (Trim ''1-2,3-4,x-5,6-7'' cutset) (CHR '','') =
      [''1-2'', ''3-4''] @ [''x-5'', ''6-7'']"
    by (simp add: codec_eval)
  have g: "list_all (\<lambda>t. \<not> malformed t) [''1-2'', ''3-4'']"
    by (simp add: codec_eval token_eval)
  have m: "[''x-5'', ''6-7''] \<noteq> [] \<and> malformed (hd [''x-5'', ''6-7''])"
    by (simp add: codec_eval token_eval)
  have r: "map tokenRange [''1-2'', ''3-4''] = [(1, 2), (3, 4)]"
    by (simp add: codec_eval token_eval)
  have e: "fst (UnmarshalJSON [(7, 8)] ''1-2,3-4,x-5,6-7'') = Some (ErrSyntax ''x'')"
    by (simp add: codec_eval)
  have t2: "Trim ''1-2,3-4'' cutset \<noteq> []" by (simp add: codec_eval)
  have s2: "Split (Trim ''1-2,3-4'' cutset) (CHR '','') = [''1-2'', ''3-4''] @ []"
    by (simp add: codec_eval)
  from decode_not_atomic [OF t s g, of "[(7, 8)]"] m r e
  have a: "UnmarshalJSON [(7, 8)] ''1-2,3-4,x-5,6-7'' =
      (Some (ErrSyntax ''x''), [(7, 8), (1, 2), (3, 4)])"
    by auto
  from decode_not_atomic [OF t2 s2 g, of "[(7, 8)]"] r
  have b: "UnmarshalJSON [(7, 8)] ''1-2,3-4'' = (None, [(7, 8), (1, 2), (3, 4)])"
    by simp
  show ?thesis using a b by simp
qed

text \<open>
  Claim C4, as the code has it. When a token of a non-empty input is malformed, the
  decode returns an error, and the receiver is what it held before followed by the
  intervals of the tokens in front of the first malformed one. So the receiver is
  left as it was (unset, when it was fresh) when the first token is the malformed
  one, as in the inputs \<^verbatim>\<open>10\<close> and \<^verbatim>\<open>x-20\<close> of the specification.
\<close>

theorem malformed_token_error:
  assumes "Trim data cutset \<noteq> []"
    and "list_ex malformed (Split (Trim data cutset) (CHR '',''))"
  shows "(\<exists>e. UnmarshalJSON rs data = (Some e, rs @
      map tokenRange
        (takeWhile (\<lambda>t. \<not> malformed t) (Split (Trim data cutset) (CHR '',''))))) \<and>
    (malformed (hd (Split (Trim data cutset) (CHR '',''))) \<longrightarrow>
       snd (UnmarshalJSON rs data) = rs)"
proof -
  let ?toks = "Split (Trim data cutset) (CHR '','')"
  let ?good = "takeWhile (\<lambda>t. \<not> malformed t) ?toks"
  let ?rest = "dropWhile (\<lambda>t. \<not> malformed t) ?toks"
  have g: "list_all (\<lambda>t. \<not> malformed t) ?good"
    by (auto simp: list_all_iff dest: set_takeWhileD)
  from assms(2) have ne: "?rest \<noteq> []"
    by (auto simp: list_ex_iff dropWhile_eq_Nil_conv)
  then have m: "malformed (hd ?rest)"
    using hd_dropWhile [of "\<lambda>t. \<not> malformed t" ?toks] by simp
  from ne m obtain bad more where r: "?rest = bad # more" and "malformed bad"
    by (cases ?rest) auto
  from loop_malformed [OF this(2)] obtain e where
    "UnmarshalJSON_loop (rs @ map tokenRange ?good) (bad # more) =
       (Some e, rs @ map tokenRange ?good)"
    by blast
  moreover have "UnmarshalJSON rs data = UnmarshalJSON_loop (rs @ map tokenRange ?good) ?rest"
    using assms(1) loop_wellformed_prefix [OF g, of rs ?rest]
    by (simp add: UnmarshalJSON_def Let_def)
  ultimately have a: "UnmarshalJSON rs data = (Some e, rs @ map tokenRange ?good)"
    by (simp only: r)
  have "?good = []" if "malformed (hd ?toks)"
    using that ne by (cases ?toks) auto
  with a show ?thesis by auto
qed

theorem malformed_token_error_witness:
  "UnmarshalJSON [] ''x-20'' = (Some (ErrSyntax ''x''), []) \<and>
   UnmarshalJSON [] ''10'' = (Some (BadRange ''10''), [])"
proof -
  have t: "Trim ''x-20'' cutset \<noteq> []" by (simp add: codec_eval)
  have m: "list_ex malformed (Split (Trim ''x-20'' cutset) (CHR '',''))"
    by (simp add: codec_eval token_eval)
  have h: "malformed (hd (Split (Trim ''x-20'' cutset) (CHR '','')))"
    by (simp add: codec_eval token_eval)
  have e: "fst (UnmarshalJSON [] ''x-20'') = Some (ErrSyntax ''x'')"
    by (simp add: codec_eval)
  have b: "UnmarshalJSON [] ''10'' = (Some (BadRange ''10''), [])"
    by (simp add: codec_eval)
  from malformed_token_error [OF t m, of "[]"] h e
  have "UnmarshalJSON [] ''x-20'' = (Some (ErrSyntax ''x''), [])"
    by (metis prod.collapse)
  then show ?thesis using b by simp
qed

text \<open>
  Claim C4, as the specification states it, fails when a well-formed token stands in
  front of the malformed one: decoding \<^verbatim>\<open>10-20,x-20\<close> or \<^verbatim>\<open>10-20,10\<close> into a fresh
  RangeSet returns the error, and the RangeSet is not unset: it holds \<open>[10, 20]\<close>.
\<close>

theorem malformed_token_counterexample:
  "list_ex malformed (Split (Trim ''10-20,x-20'' cutset) (CHR '','')) \<and>
   UnmarshalJSON [] ''10-20,x-20'' = (Some (ErrSyntax ''x''), [(10, 20)]) \<and>
   list_ex malformed (Split (Trim ''10-20,10'' cutset) (CHR '','')) \<and>
   UnmarshalJSON [] ''10-20,10'' = (Some (BadRange ''10''), [(10, 20)])"
  by (simp add: codec_eval token_eval)

section \<open>Decoding a well-formed encoding\<close>

lemma Split_no_sep: "sep \<notin> set s \<Longrightarrow> Split s sep = [s]"
proof -
  assume "sep \<notin> set s"
  then have dw: "dropWhile (\<lambda>c. c \<noteq> sep) s = []"
    by (auto simp: dropWhile_eq_Nil_conv)
  show ?thesis by (subst Split.simps) (simp only: dw list.case)
qed

lemma Split_sep: "sep \<notin> set a \<Longrightarrow> Split (a @ sep # b) sep = a # Split b sep"
proof -
  assume n: "sep \<notin> set a"
  then have dw: "dropWhile (\<lambda>c. c \<noteq> sep) (a @ sep # b) = sep # b"
    by (subst dropWhile_append2) auto
  from n have tw: "takeWhile (\<lambda>c. c \<noteq> sep) (a @ sep # b) = a"
    by (subst takeWhile_append2) auto
  show ?thesis by (subst Split.simps) (simp only: dw tw list.case)
qed

lemma Split_encodeRanges:
  assumes "list_all (\<lambda>p. uint64_numeral (fst p) \<and> uint64_numeral (snd p)) toks"
    and "toks \<noteq> []"
  shows "Split (encodeRanges toks) (CHR '','') = map (\<lambda>p. fst p @ CHR ''-'' # snd p) toks"
  using assms
proof (induction toks rule: encodeRanges.induct)
  case 1
  then show ?case by simp
next
  case (2 a b)
  then have "list_all isDigit a" "list_all isDigit b" by (simp_all add: uint64_numeral_def)
  then have "CHR '','' \<notin> set (a @ CHR ''-'' # b)"
    using digits_no_sep(1) by auto
  then show ?case by (simp add: Split_no_sep)
next
  case (3 a b t ts)
  then have "list_all isDigit a" "list_all isDigit b" by (simp_all add: uint64_numeral_def)
  then have n: "CHR '','' \<notin> set (a @ CHR ''-'' # b)"
    using digits_no_sep(1) by auto
  have e: "encodeRanges ((a, b) # t # ts) =
      (a @ CHR ''-'' # b) @ CHR '','' # encodeRanges (t # ts)"
    by simp
  have "Split (encodeRanges (t # ts)) (CHR '','') =
      map (\<lambda>p. fst p @ CHR ''-'' # snd p) (t # ts)"
    using 3 by simp
  then show ?case unfolding e Split_sep [OF n] by simp
qed

lemma encodeRanges_ends:
  assumes "list_all (\<lambda>p. uint64_numeral (fst p) \<and> uint64_numeral (snd p)) toks"
    and "toks \<noteq> []"
  shows "encodeRanges toks \<noteq> [] \<and> isDigit (hd (encodeRanges toks)) \<and>
         isDigit (last (encodeRanges toks))"
  using assms
proof (induction toks rule: encodeRanges.induct)
  case 1
  then show ?case by simp
next
  case (2 a b)
  then have a: "a \<noteq> []" "list_all isDigit a" and b: "b \<noteq> []" "list_all isDigit b"
    by (simp_all add: uint64_numeral_def)
  from a have "isDigit (hd a)" by (cases a) simp_all
  moreover from b have "isDigit (last b)" by (simp add: list_all_iff)
  ultimately show ?case using a b by simp
next
  case (3 a b t ts)
  then have a: "a \<noteq> []" "list_all isDigit a"
    by (simp_all add: uint64_numeral_def)
  from a have "isDigit (hd a)" by (cases a) simp_all
  moreover have "encodeRanges (t # ts) \<noteq> [] \<and> isDigit (last (encodeRanges (t # ts)))"
    using 3 by simp
  ultimately show ?case using a by simp
qed

lemma numeral_token:
  assumes "uint64_numeral a" and "uint64_numeral b"
  shows "\<not> malformed (a @ CHR ''-'' # b)"
    and "tokenRange (a @ CHR ''-'' # b) = numeralRange (a, b)"
proof -
  from assms have da: "list_all isDigit a" and db: "list_all isDigit b"
    by (simp_all add: uint64_numeral_def)
  from da have n: "CHR ''-'' \<notin> set a" by (rule digits_no_sep(2))
  then have bd: "beforeDash (a @ CHR ''-'' # b) = a"
    unfolding beforeDash_def by (subst takeWhile_append2) auto
  from n have ad: "afterDash (a @ CHR ''-'' # b) = b"
    unfolding afterDash_def by (subst dropWhile_append2) auto
  show "\<not> malformed (a @ CHR ''-'' # b)"
    using assms
    by (simp add: malformed_def bd ad TrimSpace_digits [OF da] TrimSpace_digits [OF db])
  show "tokenRange (a @ CHR ''-'' # b) = numeralRange (a, b)"
    by (simp add: tokenRange_def numeralRange_def bd ad
        TrimSpace_digits [OF da] TrimSpace_digits [OF db])
qed

lemma decode_encodeRanges:
  assumes "list_all (\<lambda>p. uint64_numeral (fst p) \<and> uint64_numeral (snd p)) toks"
  shows "UnmarshalJSON rs (encodeRanges toks) = (None, rs @ map numeralRange toks)"
proof (cases "toks = []")
  case True
  then show ?thesis by (simp add: UnmarshalJSON_def Trim_def TrimRight_def)
next
  case False
  note e = encodeRanges_ends [OF assms False]
  then have "Trim (encodeRanges toks) cutset = encodeRanges toks"
    using isDigit_not_sep(3) by (intro Trim_id) auto
  then have u: "UnmarshalJSON rs (encodeRanges toks) =
      UnmarshalJSON_loop rs (map (\<lambda>p. fst p @ CHR ''-'' # snd p) toks)"
    using e by (simp add: UnmarshalJSON_def Split_encodeRanges [OF assms False])
  have g: "list_all (\<lambda>t. \<not> malformed t) (map (\<lambda>p. fst p @ CHR ''-'' # snd p) toks)"
    using assms numeral_token(1) by (auto simp: list_all_iff)
  have m: "map tokenRange (map (\<lambda>p. fst p @ CHR ''-'' # snd p) toks) = map numeralRange toks"
    using assms numeral_token(2) by (auto simp: list_all_iff)
  show ?thesis unfolding u using loop_wellformed_prefix [OF g, of rs "[]"]
    by (simp only: m append_Nil2 UnmarshalJSON_loop.simps(1))
qed

lemma uint_numeral_value:
  "uint64_numeral s \<Longrightarrow> uint (of_nat (decimalValue s) :: uint64) = int (decimalValue s)"
  by (simp add: uint64_numeral_def uint_nat unat_of_nat)

lemma int_sum_ordered:
  "list_all (\<lambda>p. decimalValue (fst p) \<le> decimalValue (snd p)) toks \<Longrightarrow>
   (\<Sum>p\<leftarrow>toks. int (decimalValue (snd p)) - int (decimalValue (fst p)) + 1) =
   int (\<Sum>p\<leftarrow>toks. decimalValue (snd p) - decimalValue (fst p) + 1)"
  by (induction toks) (simp_all add: of_nat_diff)

lemma plain_sum:
  fixes w :: uint64
  assumes u: "uint w =
      (\<Sum>p\<leftarrow>toks. int (decimalValue (snd p)) - int (decimalValue (fst p)) + 1) mod 2 ^ 64"
    and o: "list_all (\<lambda>p. decimalValue (fst p) \<le> decimalValue (snd p)) toks"
    and b: "(\<Sum>p\<leftarrow>toks. decimalValue (snd p) - decimalValue (fst p) + 1) < 2 ^ 64"
  shows "unat w = (\<Sum>p\<leftarrow>toks. decimalValue (snd p) - decimalValue (fst p) + 1)"
proof -
  define n where "n = (\<Sum>p\<leftarrow>toks. decimalValue (snd p) - decimalValue (fst p) + 1)"
  have "int n < int (2 ^ 64)" using b unfolding n_def by (simp only: of_nat_less_iff)
  then have lt: "int n < 2 ^ 64" by simp
  have "uint w = int n mod 2 ^ 64"
    unfolding u int_sum_ordered [OF o] n_def by (rule refl)
  also have "\<dots> = int n" using lt by (intro mod_pos_pos_trivial) simp_all
  finally have "int (unat w) = int n" by (simp only: uint_nat)
  then show ?thesis unfolding n_def by (simp only: of_nat_eq_iff)
qed

text \<open>
  Claim C1. Let \<open>toks\<close> be pairs of base-10 numerals below \<open>2 ^ 64\<close>. Decoding
  their encoding \<open>a-b,c-d,...\<close>, bare or wrapped in any brackets and quotes, into
  a fresh RangeSet returns no error and gives the intervals the numerals stand for,
  in their order. \<^verbatim>\<open>size()\<close> of the result is the sum of \<open>hi - lo + 1\<close> over these
  intervals, in the \<^verbatim>\<open>uint64\<close> arithmetic of the result: as an integer, the sum of
  the \<open>b - a + 1\<close> modulo \<open>2 ^ 64\<close>, and that sum itself when every pair has
  \<open>a \<le> b\<close> and the sum is below \<open>2 ^ 64\<close>. For \<^verbatim>\<open>10-20\<close> it is 11, for
  \<^verbatim>\<open>10-20,30-30\<close> it is 12.
\<close>

theorem decode_size_sum:
  assumes "list_all (\<lambda>p. uint64_numeral (fst p) \<and> uint64_numeral (snd p)) toks"
    and "set pre \<subseteq> set cutset" and "set post \<subseteq> set cutset"
  shows "UnmarshalJSON [] (pre @ encodeRanges toks @ post) = (None, map numeralRange toks) \<and>
    size_ranges (snd (UnmarshalJSON [] (pre @ encodeRanges toks @ post))) =
      (\<Sum>(lo, hi)\<leftarrow>map numeralRange toks. hi - lo + 1) \<and>
    uint (size_ranges (snd (UnmarshalJSON [] (pre @ encodeRanges toks @ post)))) =
      (\<Sum>p\<leftarrow>toks. int (decimalValue (snd p)) - int (decimalValue (fst p)) + 1) mod 2 ^ 64 \<and>
    (list_all (\<lambda>p. decimalValue (fst p) \<le> decimalValue (snd p)) toks \<and>
     (\<Sum>p\<leftarrow>toks. decimalValue (snd p) - decimalValue (fst p) + 1) < 2 ^ 64 \<longrightarrow>
       unat (size_ranges (snd (UnmarshalJSON [] (pre @ encodeRanges toks @ post)))) =
         (\<Sum>p\<leftarrow>toks. decimalValue (snd p) - decimalValue (fst p) + 1)) \<and>
    size_ranges (snd (UnmarshalJSON [] ''10-20'')) = 11 \<and>
    size_ranges (snd (UnmarshalJSON [] ''10-20,30-30'')) = 12"
proof -
  have "UnmarshalJSON [] (pre @ encodeRanges toks @ post) = UnmarshalJSON [] (encodeRanges toks)"
    using Trim_wrapped [OF assms(2,3)] by (simp add: UnmarshalJSON_def)
  then have d: "UnmarshalJSON [] (pre @ encodeRanges toks @ post) = (None, map numeralRange toks)"
    using decode_encodeRanges [OF assms(1), of "[]"] by simp
  have s: "size_ranges (map numeralRange toks) =
      (\<Sum>(lo, hi)\<leftarrow>map numeralRange toks. hi - lo + 1)"
    by (simp add: size_ranges_word_sum case_prod_unfold add.commute)
  have "map (\<lambda>r. 1 + (uint (snd r) - uint (fst r))) (map numeralRange toks) =
      map (\<lambda>p. int (decimalValue (snd p)) - int (decimalValue (fst p)) + 1) toks"
    using assms(1) by (auto simp: list_all_iff numeralRange_def uint_numeral_value)
  then have u: "uint (size_ranges (map numeralRange toks)) =
      (\<Sum>p\<leftarrow>toks. int (decimalValue (snd p)) - int (decimalValue (fst p)) + 1) mod 2 ^ 64"
    by (simp only: size_ranges_uint)
  have n: "list_all (\<lambda>p. decimalValue (fst p) \<le> decimalValue (snd p)) toks \<and>
     (\<Sum>p\<leftarrow>toks. decimalValue (snd p) - decimalValue (fst p) + 1) < 2 ^ 64 \<longrightarrow>
       unat (size_ranges (map numeralRange toks)) =
         (\<Sum>p\<leftarrow>toks. decimalValue (snd p) - decimalValue (fst p) + 1)"
    using plain_sum [OF u] by blast
  have e1: "size_ranges (snd (UnmarshalJSON [] ''10-20'')) = 11"
    by (simp add: codec_eval size_ranges_def)
  have e2: "size_ranges (snd (UnmarshalJSON [] ''10-20,30-30'')) = 12"
    by (simp add: codec_eval size_ranges_def)
  show ?thesis unfolding d snd_conv by (intro conjI refl s u n e1 e2)
qed

text \<open>The port ranges as the cluster manager sends them: quoted and in brackets.\<close>

theorem decode_size_sum_witness:
  "list_all (\<lambda>p. uint64_numeral (fst p) \<and> uint64_numeral (snd p))
     [(''31000'', ''32000''), (''8080'', ''8080'')] \<and>
   set [CHR 0x22, CHR ''[''] \<subseteq> set cutset \<and> set [CHR '']'', CHR 0x22] \<subseteq> set cutset \<and>
   UnmarshalJSON [] ([CHR 0x22, CHR ''[''] @ ''31000-32000,8080-8080'' @ [CHR '']'', CHR 0x22]) =
     (None, [(31000, 32000), (8080, 8080)]) \<and>
   unat (size_ranges (snd (UnmarshalJSON []
     ([CHR 0x22, CHR ''[''] @ ''31000-32000,8080-8080'' @ [CHR '']'', CHR 0x22])))) = 1002"
proof -
  have h: "list_all (\<lambda>p. uint64_numeral (fst p) \<and> uint64_numeral (snd p))
     [(''31000'', ''32000''), (''8080'', ''8080'')]"
    by (simp add: uint64_numeral_def isDigit_def decimalValue_def)
  have a: "set [CHR 0x22, CHR ''[''] \<subseteq> set cutset" by (simp add: cutset_def)
  have b: "set [CHR '']'', CHR 0x22] \<subseteq> set cutset" by (simp add: cutset_def)
  show ?thesis using h a b decode_size_sum [OF h a b]
    by (simp add: numeralRange_def decimalValue_def size_ranges_def)
qed

section \<open>The node gauges\<close>

lemma slaves_loop_eq: "slaves_loop e ss c = c @ map (\<lambda>s. ([PID s], e s)) ss"
  by (induction ss arbitrary: c) (simp_all add: WithLabelValues_Set_def)

lemma gauge_value_last:
  assumes "ss = before @ s # after" and "PID s \<notin> PID ` set after"
  shows "gauge_value (c @ map (\<lambda>s. ([PID s], e s)) ss) [PID s] = Some (e s)"
proof -
  have "map_of (rev (map (\<lambda>s. ([PID s], e s)) after)) [PID s] = None"
    using assms(2) by (auto simp: map_of_eq_None_iff image_iff)
  then show ?thesis
    unfolding gauge_value_def assms(1) by (simp add: map_add_def)
qed

lemma slaves_loop_gauge:
  assumes "ss = before @ s # after" and "PID s \<notin> PID ` set after"
  shows "gauge_value (slaves_loop e ss c) [PID s] = Some (e s)"
  unfolding slaves_loop_eq using assms by (rule gauge_value_last)

lemma MaxFloat64_ge: "2 ^ 1023 \<le> MaxFloat64"
proof -
  have "(2::real) ^ 1023 = 2 ^ 52 * 2 ^ 971" by (simp only: power_add [symmetric]) simp
  also have "\<dots> \<le> (2 ^ 53 - 1) * 2 ^ 971"
    by (intro mult_right_mono) simp_all
  finally show ?thesis by (simp only: MaxFloat64_def)
qed

lemma MaxFloat64_less: "MaxFloat64 < 2 ^ 1024"
proof -
  have "((2::real) ^ 53 - 1) * 2 ^ 971 < 2 ^ 53 * 2 ^ 971"
    by (intro mult_strict_right_mono) simp_all
  also have "\<dots> = 2 ^ 1024" by (simp only: power_add [symmetric]) simp
  finally show ?thesis by (simp only: MaxFloat64_def)
qed

lemma times_1024_exact:
  "\<bar>x\<bar> * 1024 \<le> MaxFloat64 \<Longrightarrow> times_1024 (Finite x) = Finite (x * 1024)"
  by (simp add: abs_mult)

lemma times_1024_small:
  assumes "\<bar>x\<bar> \<le> 2 ^ 1000"
  shows "times_1024 (Finite x) = Finite (x * 1024)"
proof -
  have "\<bar>x\<bar> * 1024 \<le> 2 ^ 1000 * 1024" using assms by simp
  also have "\<dots> = (2::real) ^ 1010"
  proof -
    have "(1024::real) = 2 ^ 10" by simp
    then show ?thesis by (simp only: power_add [symmetric]) simp
  qed
  also have "\<dots> \<le> 2 ^ 1023" by (intro power_increasing) simp_all
  also note MaxFloat64_ge
  finally show ?thesis by (rule times_1024_exact)
qed

text \<open>
  Beyond \<open>MaxFloat64 / 1024\<close> the gauges are infinite: a node that reports
  \<open>2 ^ 1023\<close> MiB, a binary64 value that a JSON number can denote, has
  \<open>mem_bytes = +Inf\<close>.
\<close>

lemma times_1024_overflow: "times_1024 (Finite (2 ^ 1023)) = PosInf"
proof -
  have "(2::real) ^ 1023 * 1024 = 2 ^ 1033"
  proof -
    have "(1024::real) = 2 ^ 10" by simp
    then show ?thesis by (simp only: power_add [symmetric]) simp
  qed
  moreover have "(2::real) ^ 1024 \<le> 2 ^ 1033" by (intro power_increasing) simp_all
  ultimately have "MaxFloat64 < \<bar>(2::real) ^ 1023 * 1024\<bar>"
    using MaxFloat64_less by simp
  then show ?thesis by (simp add: not_le [symmetric] del: not_le)
qed

text \<open>
  Claim C3. Each of the six extractors emits, for every node of the snapshot and in
  the order of the snapshot, one observation labelled with the PID of the node, whose
  value is the \<^verbatim>\<open>float64\<close> product of the \<open>Mem\<close> or \<open>Disk\<close> field and 1024. After
  the extractor has run, the gauge of the PID of a node holds that product for the
  node: for every node when the PIDs of the snapshot are unique, as the data model
  asks, and for the last node with that PID otherwise. While it is within
  \<open>MaxFloat64\<close> the product is the field times 1024 and nothing else: 2 gives 2048.
\<close>

theorem mem_disk_times_1024:
  assumes "Slaves st = before @ s # after" and "PID s \<notin> PID ` set after"
  shows "mem_bytes st c = c @ map (\<lambda>s. ([PID s], times_1024 (Mem (Total s)))) (Slaves st) \<and>
    mem_used_bytes st c = c @ map (\<lambda>s. ([PID s], times_1024 (Mem (Used s)))) (Slaves st) \<and>
    mem_unreserved_bytes st c =
      c @ map (\<lambda>s. ([PID s], times_1024 (Mem (Unreserved s)))) (Slaves st) \<and>
    disk_bytes st c = c @ map (\<lambda>s. ([PID s], times_1024 (Disk (Total s)))) (Slaves st) \<and>
    disk_used_bytes st c = c @ map (\<lambda>s. ([PID s], times_1024 (Disk (Used s)))) (Slaves st) \<and>
    disk_unreserved_bytes st c =
      c @ map (\<lambda>s. ([PID s], times_1024 (Disk (Unreserved s)))) (Slaves st) \<and>
    gauge_value (mem_bytes st c) [PID s] = Some (times_1024 (Mem (Total s))) \<and>
    gauge_value (mem_used_bytes st c) [PID s] = Some (times_1024 (Mem (Used s))) \<and>
    gauge_value (mem_unreserved_bytes st c) [PID s] = Some (times_1024 (Mem (Unreserved s))) \<and>
    gauge_value (disk_bytes st c) [PID s] = Some (times_1024 (Disk (Total s))) \<and>
    gauge_value (disk_used_bytes st c) [PID s] = Some (times_1024 (Disk (Used s))) \<and>
    gauge_value (disk_unreserved_bytes st c) [PID s] = Some (times_1024 (Disk (Unreserved s))) \<and>
    (\<bar>x\<bar> * 1024 \<le> MaxFloat64 \<longrightarrow> times_1024 (Finite x) = Finite (x * 1024)) \<and>
    times_1024 (Finite 2) = Finite 2048"
proof -
  have g: "gauge_value (slaves_loop e (Slaves st) c) [PID s] = Some (e s)" for e
    using assms by (rule slaves_loop_gauge)
  have x: "\<bar>x\<bar> * 1024 \<le> MaxFloat64 \<longrightarrow> times_1024 (Finite x) = Finite (x * 1024)"
    using times_1024_exact by blast
  have two: "times_1024 (Finite 2) = Finite 2048"
    using times_1024_small [of 2] by simp
  show ?thesis
    unfolding mem_bytes_def mem_used_bytes_def mem_unreserved_bytes_def
      disk_bytes_def disk_used_bytes_def disk_unreserved_bytes_def
    by (intro conjI slaves_loop_eq g x two)
qed

text \<open>
  A snapshot of three nodes with three PIDs, looked at in its middle node and in
  its first: \<open>Total.Mem = 2\<close> gives \<open>mem_bytes = 2048\<close>, \<open>Used.Disk = 3\<close> gives
  \<open>disk_used_bytes = 3072\<close>.
\<close>

theorem mem_disk_times_1024_witness:
  "(let n1 = \<lparr>PID = ''slave(1)@10.0.0.1:5051'',
          Used = \<lparr>CPUs = Finite 1, Disk = Finite 3, Mem = Finite 1, Ports = []\<rparr>,
          Unreserved = \<lparr>CPUs = Finite 3, Disk = Finite 5, Mem = Finite 1, Ports = []\<rparr>,
          Total = \<lparr>CPUs = Finite 4, Disk = Finite 8, Mem = Finite 2, Ports = []\<rparr>\<rparr>;
        n2 = \<lparr>PID = ''slave(2)@10.0.0.2:5051'',
          Used = \<lparr>CPUs = Finite 2, Disk = Finite 10, Mem = Finite 512, Ports = []\<rparr>,
          Unreserved = \<lparr>CPUs = Finite 6, Disk = Finite 90, Mem = Finite 1536, Ports = []\<rparr>,
          Total = \<lparr>CPUs = Finite 8, Disk = Finite 100, Mem = Finite 2048, Ports = []\<rparr>\<rparr>;
        n3 = \<lparr>PID = ''slave(3)@10.0.0.3:5051'',
          Used = \<lparr>CPUs = Finite 0, Disk = Finite 0, Mem = Finite 0, Ports = []\<rparr>,
          Unreserved = \<lparr>CPUs = Finite 1, Disk = Finite 1, Mem = Finite 1, Ports = []\<rparr>,
          Total = \<lparr>CPUs = Finite 1, Disk = Finite 1, Mem = Finite 1, Ports = []\<rparr>\<rparr>;
        st = \<lparr>Slaves = [n1, n2, n3], Frameworks = []\<rparr>
    in Slaves st = [n1] @ n2 # [n3] \<and> PID n2 \<notin> PID ` set [n3] \<and>
       Slaves st = [] @ n1 # [n2, n3] \<and> PID n1 \<notin> PID ` set [n2, n3] \<and>
       gauge_value (mem_bytes st []) [PID n2] = Some (Finite 2097152) \<and>
       gauge_value (disk_unreserved_bytes st []) [PID n2] = Some (Finite 92160) \<and>
       gauge_value (mem_bytes st []) [PID n1] = Some (Finite 2048) \<and>
       gauge_value (disk_used_bytes st []) [PID n1] = Some (Finite 3072))"
proof -
  let ?n1 = "\<lparr>PID = ''slave(1)@10.0.0.1:5051'',
          Used = \<lparr>CPUs = Finite 1, Disk = Finite 3, Mem = Finite 1, Ports = []\<rparr>,
          Unreserved = \<lparr>CPUs = Finite 3, Disk = Finite 5, Mem = Finite 1, Ports = []\<rparr>,
          Total = \<lparr>CPUs = Finite 4, Disk = Finite 8, Mem = Finite 2, Ports = []\<rparr>\<rparr>"
  let ?n2 = "\<lparr>PID = ''slave(2)@10.0.0.2:5051'',
          Used = \<lparr>CPUs = Finite 2, Disk = Finite 10, Mem = Finite 512, Ports = []\<rparr>,
          Unreserved = \<lparr>CPUs = Finite 6, Disk = Finite 90, Mem = Finite 1536, Ports = []\<rparr>,
          Total = \<lparr>CPUs = Finite 8, Disk = Finite 100, Mem = Finite 2048, Ports = []\<rparr>\<rparr>"
  let ?n3 = "\<lparr>PID = ''slave(3)@10.0.0.3:5051'',
          Used = \<lparr>CPUs = Finite 0, Disk = Finite 0, Mem = Finite 0, Ports = []\<rparr>,
          Unreserved = \<lparr>CPUs = Finite 1, Disk = Finite 1, Mem = Finite 1, Ports = []\<rparr>,
          Total = \<lparr>CPUs = Finite 1, Disk = Finite 1, Mem = Finite 1, Ports = []\<rparr>\<rparr>"
  let ?st = "\<lparr>Slaves = [?n1, ?n2, ?n3], Frameworks = []\<rparr>"
  have a2: "Slaves ?st = [?n1] @ ?n2 # [?n3]" by simp
  have b2: "PID ?n2 \<notin> PID ` set [?n3]" by simp
  have a1: "Slaves ?st = [] @ ?n1 # [?n2, ?n3]" by simp
  have b1: "PID ?n1 \<notin> PID ` set [?n2, ?n3]" by simp
  have t: "times_1024 (Finite 2048) = Finite 2097152" "times_1024 (Finite 90) = Finite 92160"
    "times_1024 (Finite 2) = Finite 2048" "times_1024 (Finite 3) = Finite 3072"
    using times_1024_small [of 2048] times_1024_small [of 90]
      times_1024_small [of 2] times_1024_small [of 3] by simp_all
  note th2 = mem_disk_times_1024 [OF a2 b2, of "[]"]
  note th1 = mem_disk_times_1024 [OF a1 b1, of "[]"]
  have g1: "gauge_value (mem_bytes ?st []) [PID ?n2] = Some (Finite 2097152)"
    using th2 [THEN conjunct2, THEN conjunct2, THEN conjunct2, THEN conjunct2, THEN conjunct2, THEN conjunct2, THEN conjunct1] t(1) by (simp del: times_1024.simps)
  have g2: "gauge_value (disk_unreserved_bytes ?st []) [PID ?n2] = Some (Finite 92160)"
    using th2 [THEN conjunct2, THEN conjunct2, THEN conjunct2, THEN conjunct2, THEN conjunct2, THEN conjunct2, THEN conjunct2, THEN conjunct2, THEN conjunct2, THEN conjunct2, THEN conjunct2, THEN conjunct1] t(2) by (simp del: times_1024.simps)
  have g3: "gauge_value (mem_bytes ?st []) [PID ?n1] = Some (Finite 2048)"
    using th1 [THEN conjunct2, THEN conjunct2, THEN conjunct2, THEN conjunct2, THEN conjunct2, THEN conjunct2, THEN conjunct1] t(3) by (simp del: times_1024.simps)
  have g4: "gauge_value (disk_used_bytes ?st []) [PID ?n1] = Some (Finite 3072)"
    using th1 [THEN conjunct2, THEN conjunct2, THEN conjunct2, THEN conjunct2, THEN conjunct2, THEN conjunct2, THEN conjunct2, THEN conjunct2, THEN conjunct2, THEN conjunct2, THEN conjunct1] t(4) by (simp del: times_1024.simps)
  show ?thesis unfolding Let_def by (intro conjI a2 b2 a1 b1 g1 g2 g3 g4)
qed

section \<open>The task gauge\<close>

lemma completed_loop_eq:
  "completed_loop ts c = c @
     map (\<lambda>t. ([ID t, SlaveID t, ExecutorID t, Name t, FrameworkID t, task.State t],
               Timestamp (hd (Statuses t))))
       (filter (\<lambda>t. Statuses t \<noteq> []) ts)"
  by (induction ts arbitrary: c) (simp_all add: WithLabelValues_Set_def hd_conv_nth)

lemma frameworks_loop_eq:
  "frameworks_loop fs c = c @
     concat (map (\<lambda>f.
       map (\<lambda>t. ([ID t, SlaveID t, ExecutorID t, Name t, FrameworkID t, task.State t],
                 Timestamp (hd (Statuses t))))
         (filter (\<lambda>t. Statuses t \<noteq> []) (Completed f))) (filter Active fs))"
  by (induction fs arbitrary: c) (simp_all add: completed_loop_eq)

text \<open>
  Claim C2. What \<^verbatim>\<open>task_state_time\<close> emits for a snapshot is, framework by active
  framework and task by task, one observation for each completed task with a
  non-empty status list: its labels are (task ID, slave ID, executor ID, task name,
  framework ID, task state) and its value is the timestamp of the first status.
  Nothing else is emitted: the in-progress tasks can be replaced by any others
  without changing the result. For the snapshot of the specification, whose task has
  the statuses (finished, 100) and (running, 50), the value is 100.
\<close>

theorem task_state_time_observations:
  "task_state_time st c = c @
     concat (map (\<lambda>f.
       map (\<lambda>t. ([ID t, SlaveID t, ExecutorID t, Name t, FrameworkID t, task.State t],
                 Timestamp (hd (Statuses t))))
         (filter (\<lambda>t. Statuses t \<noteq> []) (Completed f))) (filter Active (Frameworks st))) \<and>
   task_state_time (st\<lparr>Frameworks := map (\<lambda>f. f\<lparr>Tasks := ts f\<rparr>) (Frameworks st)\<rparr>) c =
     task_state_time st c \<and>
   task_state_time \<lparr>Slaves = [], Frameworks = [\<lparr>Active = True, Tasks = [],
      Completed = [\<lparr>Name = ''web'', ID = ''t1'', ExecutorID = ''e1'', FrameworkID = ''f1'',
        SlaveID = ''s1'', State = ''TASK_FINISHED'', Labels = [],
        Resources = \<lparr>CPUs = Finite 0, Disk = Finite 0, Mem = Finite 0, Ports = []\<rparr>,
        Statuses = [\<lparr>status.State = ''TASK_FINISHED'', Timestamp = Finite 100\<rparr>,
                    \<lparr>status.State = ''TASK_RUNNING'', Timestamp = Finite 50\<rparr>]\<rparr>]\<rparr>]\<rparr> [] =
     [([''t1'', ''s1'', ''e1'', ''web'', ''f1'', ''TASK_FINISHED''], Finite 100)]"
proof -
  have a: "task_state_time st c = c @
     concat (map (\<lambda>f.
       map (\<lambda>t. ([ID t, SlaveID t, ExecutorID t, Name t, FrameworkID t, task.State t],
                 Timestamp (hd (Statuses t))))
         (filter (\<lambda>t. Statuses t \<noteq> []) (Completed f))) (filter Active (Frameworks st)))"
    for st c
    by (simp add: task_state_time_def frameworks_loop_eq)
  have b: "task_state_time
      (st\<lparr>Frameworks := map (\<lambda>f. f\<lparr>Tasks := ts f\<rparr>) (Frameworks st)\<rparr>) c =
     task_state_time st c"
    by (simp add: a filter_map comp_def)
  show ?thesis using a [of st c] b
    by (simp add: task_state_time_def WithLabelValues_Set_def)
qed

text \<open>
  Claim C8. A framework that is not active contributes nothing: the snapshot without
  its inactive frameworks gives the same observations, and a snapshot all of whose
  frameworks are inactive gives none, whatever their completed tasks are.
\<close>

theorem inactive_frameworks_ignored:
  "task_state_time (st\<lparr>Frameworks := filter Active (Frameworks st)\<rparr>) c =
     task_state_time st c \<and>
   (list_all (\<lambda>f. \<not> Active f) (Frameworks st) \<longrightarrow> task_state_time st c = c)"
proof -
  have "list_all (\<lambda>f. \<not> Active f) fs \<Longrightarrow> filter Active fs = []" for fs :: "framework list"
    by (induction fs) simp_all
  then show ?thesis
    by (auto simp add: task_state_time_def frameworks_loop_eq)
qed

theorem inactive_frameworks_ignored_witness:
  "list_all (\<lambda>f. \<not> Active f) (Frameworks \<lparr>Slaves = [], Frameworks = [\<lparr>Active = False, Tasks = [],
      Completed = [\<lparr>Name = ''web'', ID = ''t1'', ExecutorID = ''e1'', FrameworkID = ''f1'',
        SlaveID = ''s1'', State = ''TASK_FINISHED'', Labels = [],
        Resources = \<lparr>CPUs = Finite 0, Disk = Finite 0, Mem = Finite 0, Ports = []\<rparr>,
        Statuses = [\<lparr>status.State = ''TASK_FINISHED'', Timestamp = Finite 100\<rparr>]\<rparr>]\<rparr>]\<rparr>) \<and>
   task_state_time \<lparr>Slaves = [], Frameworks = [\<lparr>Active = False, Tasks = [],
      Completed = [\<lparr>Name = ''web'', ID = ''t1'', ExecutorID = ''e1'', FrameworkID = ''f1'',
        SlaveID = ''s1'', State = ''TASK_FINISHED'', Labels = [],
        Resources = \<lparr>CPUs = Finite 0, Disk = Finite 0, Mem = Finite 0, Ports = []\<rparr>,
        Statuses = [\<lparr>status.State = ''TASK_FINISHED'', Timestamp = Finite 100\<rparr>]\<rparr>]\<rparr>]\<rparr> [] = []"
  using inactive_frameworks_ignored [of "\<lparr>Slaves = [], Frameworks = [\<lparr>Active = False, Tasks = [],
      Completed = [\<lparr>Name = ''web'', ID = ''t1'', ExecutorID = ''e1'', FrameworkID = ''f1'',
        SlaveID = ''s1'', State = ''TASK_FINISHED'', Labels = [],
        Resources = \<lparr>CPUs = Finite 0, Disk = Finite 0, Mem = Finite 0, Ports = []\<rparr>,
        Statuses = [\<lparr>status.State = ''TASK_FINISHED'', Timestamp = Finite 100\<rparr>]\<rparr>]\<rparr>]\<rparr>" "[]"]
  by simp

section \<open>A cycle that fails\<close>

text \<open>
  Claim C9. When the request fails, or when it succeeds and its body does not
  decode, the cycle returns the collector as it was, with every gauge as the last
  successful cycle left it, whatever the extractors of the table are; it logs one
  line and sends nothing.
\<close>

theorem Collect_failure_leaves_metrics:
  assumes "(\<exists>err. get (TrimSuffix (url c) ''/'' @ ''/state'') = Inl err) \<or>
     (\<exists>body err. get (TrimSuffix (url c) ''/'' @ ''/state'') = Inr body \<and>
        decode body = Inl err)"
  shows "fst (Collect get decode c) = c \<and>
         length (fst (snd (Collect get decode c))) = 1 \<and>
         snd (snd (Collect get decode c)) = []"
  using assms by (auto simp: Collect_def Let_def split: sum.splits)

theorem Collect_failure_leaves_metrics_witness:
  "Collect (\<lambda>u. Inl (TransportError ''timeout'')) (\<lambda>b. Inl (JSONError ''unused''))
     \<lparr>url = ''http://master:5050/'', metrics = [([([''n1''], Finite 7)], mem_bytes)]\<rparr> =
   (\<lparr>url = ''http://master:5050/'', metrics = [([([''n1''], Finite 7)], mem_bytes)]\<rparr>,
    [ErrorFetching ''http://master:5050/state'' (TransportError ''timeout'')], []) \<and>
   fst (Collect (\<lambda>u. Inr ''{'') (\<lambda>b. Inl (JSONError ''unexpected EOF''))
     \<lparr>url = ''http://master:5050'', metrics = [([([''n1''], Finite 7)], mem_bytes)]\<rparr>) =
   \<lparr>url = ''http://master:5050'', metrics = [([([''n1''], Finite 7)], mem_bytes)]\<rparr>"
  using Collect_failure_leaves_metrics [of "\<lambda>u. Inl (TransportError ''timeout'')"
     "\<lparr>url = ''http://master:5050/'', metrics = [([([''n1''], Finite 7)], mem_bytes)]\<rparr>"
     "\<lambda>b. Inl (JSONError ''unused'')"]
   Collect_failure_leaves_metrics [of "\<lambda>u. Inr ''{''"
     "\<lparr>url = ''http://master:5050'', metrics = [([([''n1''], Finite 7)], mem_bytes)]\<rparr>"
     "\<lambda>b. Inl (JSONError ''unexpected EOF'')"]
  by (simp add: Collect_def TrimSuffix_def)

end
